theory Spec2Isabelle
  imports Main "HOL-Library.AList"
begin

section \<open>Cross-validation splitting of the decagon and qm9 datasets (split\_cv\_data.py)\<close>

text \<open>
  The script is embedded function by function.  Python exceptions are values of
  \<open>py_error\<close>; a function that can raise returns \<open>py_error + 'a\<close> with \<open>Inl\<close> the
  exception.  A Python dict is an association list in insertion order
  (\<open>AList.update\<close> overwrites a present key in place and appends a new one, as a dict
  does; \<open>map_of\<close> is the lookup).  Drug and side-effect identifiers are strings.
\<close>

datatype py_error =
    AssertionError
  | ValueError
  | TypeError
  | ZeroDivisionError
  | KeyError
  | FileNotFoundError

type_synonym drug_pair = "string \<times> string"

type_synonym ('k, 'v) pydict = "('k \<times> 'v) list"

subsection \<open>\<open>read_ddi_instances\<close> (nested in \<open>prepare_decagon_cv\<close>)\<close>

text \<open>
  The body of \<open>for i, row in enumerate(drug_reader)\<close>.  A row is the list of its
  fields.  \<open>did1, did2, sid, *_ = row\<close> raises ValueError on fewer than three
  fields; \<open>assert did1 != did2\<close> raises AssertionError.  The first row (\<open>i = 0\<close>,
  the header) is skipped.
\<close>

fun read_rows :: "nat \<Rightarrow> string list list \<Rightarrow> (string, drug_pair list) pydict \<Rightarrow>
    py_error + (string, drug_pair list) pydict" where
  "read_rows i [] side_effects = Inr side_effects"
| "read_rows i (row # rows) side_effects =
     (if i > 0 then
        (case row of
           did1 # did2 # sid # _ \<Rightarrow>
             if did1 = did2 then Inl AssertionError
             else
               let side_effects1 =
                     (if map_of side_effects sid = None
                      then AList.update sid [] side_effects else side_effects)
               in (case map_of side_effects1 sid of
                     None \<Rightarrow> Inl KeyError
                   | Some ddis \<Rightarrow>
                       read_rows (i + 1) rows
                         (AList.update sid (ddis @ [(did1, did2)]) side_effects1))
         | _ \<Rightarrow> Inl ValueError)
      else read_rows (i + 1) rows side_effects)"

text \<open>Line 35: \<open>{se: ddis for se, ddis in side_effects.items() if len(ddis) >= threshold}\<close>.\<close>

definition filter_threshold :: "int \<Rightarrow> (string, drug_pair list) pydict \<Rightarrow> (string, drug_pair list) pydict" where
  "filter_threshold threshold side_effects =
     filter (\<lambda>(se, ddis). int (length ddis) \<ge> threshold) side_effects"

text \<open>
  Lines 37--38 (\<open>use_small_dataset\<close>): the 20 longest entries.  Python's \<open>sorted\<close> with
  \<open>reverse=True\<close> is stable, as is \<open>sort_key\<close> on the negated length.
\<close>

definition keep_largest :: "(string, drug_pair list) pydict \<Rightarrow> (string, drug_pair list) pydict" where
  "keep_largest side_effects =
     take 20 (sort_key (\<lambda>x. - int (length (snd x))) side_effects)"

text \<open>Line 40: \<open>{sid: idx for idx, sid in enumerate(side_effects)}\<close>.\<close>

definition side_effect_idx :: "(string, 'v) pydict \<Rightarrow> (string, nat) pydict" where
  "side_effect_idx side_effects = zip (map fst side_effects) [0 ..< length side_effects]"

definition read_ddi_instances :: "string list list \<Rightarrow> int \<Rightarrow> bool \<Rightarrow>
    py_error + ((string, drug_pair list) pydict \<times> (string, nat) pydict)" where
  "read_ddi_instances ddi_csv threshold use_small_dataset =
     (case read_rows 0 ddi_csv [] of
        Inl e \<Rightarrow> Inl e
      | Inr side_effects \<Rightarrow>
          let side_effects1 = filter_threshold threshold side_effects;
              side_effects2 =
                (if use_small_dataset then keep_largest side_effects1 else side_effects1)
          in Inr (side_effects2, side_effect_idx side_effects2))"

text \<open>The pairs of the rows that name side effect \<open>sid\<close>, in file order.\<close>

fun pairs_for :: "string \<Rightarrow> string list list \<Rightarrow> drug_pair list" where
  "pairs_for sid [] = []"
| "pairs_for sid (row # rows) =
     (case row of
        did1 # did2 # s # _ \<Rightarrow>
          (if s = sid then [(did1, did2)] else []) @ pairs_for sid rows
      | _ \<Rightarrow> pairs_for sid rows)"

text \<open>A data row as the CSV format has it: three fields or more, two different drugs.\<close>

fun wf_row :: "string list \<Rightarrow> bool" where
  "wf_row (did1 # did2 # sid # _) = (did1 \<noteq> did2)"
| "wf_row _ = False"


subsection \<open>\<open>split_all_cross_validation_datasets\<close> (nested in \<open>split_decagon_cv\<close>)\<close>

text \<open>
  Python's \<open>xs[start:stop]\<close>: a negative index counts from the end, and both indices
  are clamped to the list.
\<close>

definition py_slice :: "'a list \<Rightarrow> int \<Rightarrow> int \<Rightarrow> 'a list" where
  "py_slice xs start stop =
     (let n = int (length xs);
          clamp = (\<lambda>i. if i < 0 then max (i + n) 0 else min i n);
          s = clamp start;
          e = clamp stop
      in take (nat (e - s)) (drop (nat s) xs))"

text \<open>Lines 111--117: the slice \<open>datasets[se][fold_start:fold_end]\<close> of fold \<open>fold_i\<close>.\<close>

definition fold_slice :: "'a list \<Rightarrow> int \<Rightarrow> int \<Rightarrow> int \<Rightarrow> 'a list" where
  "fold_slice xs n_fold fold_len fold_i =
     (let fold_start = (fold_i - 1) * fold_len;
          fold_end = (if fold_i < n_fold then fold_i * fold_len else int (length xs))
      in py_slice xs fold_start fold_end)"

text \<open>
  The inner loop \<open>for fold_i in range(1, n_fold + 1)\<close>;
  \<open>cv_dataset[fold_i][se] = ...\<close> looks \<open>fold_i\<close> up (KeyError when absent) and stores
  under \<open>se\<close>.
\<close>

fun assign_folds :: "string \<Rightarrow> 'a list \<Rightarrow> int \<Rightarrow> int \<Rightarrow> int list \<Rightarrow>
    (int, (string, 'a list) pydict) pydict \<Rightarrow>
    py_error + (int, (string, 'a list) pydict) pydict" where
  "assign_folds se xs n_fold fold_len [] cv_dataset = Inr cv_dataset"
| "assign_folds se xs n_fold fold_len (fold_i # rest) cv_dataset =
     (case map_of cv_dataset fold_i of
        None \<Rightarrow> Inl KeyError
      | Some d \<Rightarrow>
          assign_folds se xs n_fold fold_len rest
            (AList.update fold_i
               (AList.update se (fold_slice xs n_fold fold_len fold_i) d) cv_dataset))"

text \<open>
  The outer loop \<open>for se in datasets\<close>; \<open>len(datasets[se]) // n_fold\<close> raises
  ZeroDivisionError for \<open>n_fold = 0\<close> and is floor division otherwise, as \<open>div\<close> on
  \<open>int\<close> is.
\<close>

fun split_loop :: "string list \<Rightarrow> (string, 'a list) pydict \<Rightarrow> int \<Rightarrow>
    (int, (string, 'a list) pydict) pydict \<Rightarrow>
    py_error + (int, (string, 'a list) pydict) pydict" where
  "split_loop [] datasets n_fold cv_dataset = Inr cv_dataset"
| "split_loop (se # ses) datasets n_fold cv_dataset =
     (case map_of datasets se of
        None \<Rightarrow> Inl KeyError
      | Some xs \<Rightarrow>
          if n_fold = 0 then Inl ZeroDivisionError
          else
            (case assign_folds se xs n_fold (int (length xs) div n_fold) [1 .. n_fold]
                    cv_dataset of
               Inl e \<Rightarrow> Inl e
             | Inr cv_dataset' \<Rightarrow> split_loop ses datasets n_fold cv_dataset'))"

definition split_all_cross_validation_datasets :: "(string, 'a list) pydict \<Rightarrow> int \<Rightarrow>
    py_error + (int, (string, 'a list) pydict) pydict" where
  "split_all_cross_validation_datasets datasets n_fold =
     split_loop (map fst datasets) datasets n_fold (map (\<lambda>x. (x, [])) [1 .. n_fold])"

text \<open>\<open>cv_dataset[fold_i][se]\<close>, \<open>None\<close> when either key is absent.\<close>

definition fold_lookup :: "(int, (string, 'a list) pydict) pydict \<Rightarrow> int \<Rightarrow> string \<Rightarrow>
    'a list option" where
  "fold_lookup cv_dataset fold_i se =
     (case map_of cv_dataset fold_i of None \<Rightarrow> None | Some d \<Rightarrow> map_of d se)"


subsection \<open>\<open>create_negative_instances\<close> (nested in \<open>prepare_decagon_cv\<close>)\<close>

text \<open>
  \<open>np.random.choice(drug_idx_list, size=2, replace=False)\<close> first turns the list into
  a numpy array of fixed-width unicode strings, and an item read back from such an array
  has lost its trailing NUL characters.  It then returns the items at two different
  positions of the array, and raises ValueError when there are fewer than two items.
\<close>

definition strip_nul :: "string \<Rightarrow> string" where
  "strip_nul s = rev (dropWhile (\<lambda>c. c = CHR 0x00) (rev s))"

definition np_array :: "string list \<Rightarrow> string list" where
  "np_array xs = map strip_nul xs"

text \<open>
  The random source is an input of the model: every call consumes one draw, a pair of
  natural numbers; the first selects a position among the \<open>n\<close> items, the second a
  position among the \<open>n - 1\<close> others.
\<close>

definition choice_positions :: "nat \<Rightarrow> nat \<times> nat \<Rightarrow> nat \<times> nat" where
  "choice_positions n r =
     (let i = fst r mod n;
          k = snd r mod (n - 1);
          j = (if k < i then k else k + 1)
      in (i, j))"

definition pick2 :: "string list \<Rightarrow> nat \<times> nat \<Rightarrow> string \<times> string" where
  "pick2 xs r =
     (let (i, j) = choice_positions (length xs) r
      in (np_array xs ! i, np_array xs ! j))"

definition random_choice2 :: "string list \<Rightarrow> nat \<times> nat \<Rightarrow> py_error + (string \<times> string)" where
  "random_choice2 xs r = (if length xs < 2 then Inl ValueError else Inr (pick2 xs r))"

text \<open>
  The \<open>while len(negative_set) < size\<close> loop.  The Python set \<open>negative_set\<close> is the
  list of its elements without repetition (\<open>List.insert\<close> adds an element that is
  not yet there, as \<open>negative_set |= {...}\<close> does).  The loop runs as long as draws are
  supplied: \<open>None\<close> means that the draws given are used up and the loop is still
  running; \<open>Some (Inl e)\<close> is exception \<open>e\<close>; \<open>Some (Inr negative_set)\<close> is the normal
  end of the loop.
\<close>

fun sample_loop :: "string list \<Rightarrow> drug_pair set \<Rightarrow> nat \<Rightarrow> drug_pair list \<Rightarrow>
    (nat \<times> nat) list \<Rightarrow> (py_error + drug_pair list) option" where
  "sample_loop drug_idx_list positive_set size' negative_set [] =
     (if length negative_set < size' then None else Some (Inr negative_set))"
| "sample_loop drug_idx_list positive_set size' negative_set (r # draws) =
     (if length negative_set < size' then
        (case random_choice2 drug_idx_list r of
           Inl e \<Rightarrow> Some (Inl e)
         | Inr (drug1, drug2) \<Rightarrow>
             if drug1 = drug2 then Some (Inl AssertionError)
             else if (drug1, drug2) \<in> set negative_set \<or> (drug2, drug1) \<in> set negative_set
             then sample_loop drug_idx_list positive_set size' negative_set draws
             else if (drug1, drug2) \<in> positive_set \<or> (drug2, drug1) \<in> positive_set
             then sample_loop drug_idx_list positive_set size' negative_set draws
             else sample_loop drug_idx_list positive_set size'
                    (List.insert (drug1, drug2) negative_set) draws)
      else Some (Inr negative_set))"

text \<open>
  \<open>size=None\<close> is \<open>None\<close>; \<open>if not size\<close> holds for \<open>None\<close> and for \<open>0\<close>.  The result
  \<open>list(negative_set)\<close> lists the set in an order Python does not specify; the model
  lists the most recently added pair first.
\<close>

definition create_negative_instances :: "string list \<Rightarrow> drug_pair set \<Rightarrow> nat option \<Rightarrow>
    (nat \<times> nat) list \<Rightarrow> (py_error + drug_pair list) option" where
  "create_negative_instances drug_idx_list positive_set size' draws =
     (let size1 =
            (case size' of
               None \<Rightarrow> card positive_set
             | Some s \<Rightarrow> if s = 0 then card positive_set else s)
      in sample_loop drug_idx_list positive_set size1 [] draws)"

text \<open>
  Lines 49--51 of \<open>prepare_dataset\<close>: the call made for one side effect, whose positive
  pairs are \<open>pos_se_ddp\<close>.
\<close>

definition negative_instances_for :: "string list \<Rightarrow> drug_pair list \<Rightarrow>
    (nat \<times> nat) list \<Rightarrow> (py_error + drug_pair list) option" where
  "negative_instances_for drug_idx_list pos_se_ddp draws =
     create_negative_instances drug_idx_list (set pos_se_ddp) (Some (length pos_se_ddp)) draws"

text \<open>
  The unordered pairs of different entries of a list, each listed once, and those of
  them that are in the positive set in neither orientation: the pairs the sampler can
  still return.
\<close>

fun all_pairs :: "'a list \<Rightarrow> ('a \<times> 'a) list" where
  "all_pairs [] = []"
| "all_pairs (x # xs) = map (Pair x) xs @ all_pairs xs"

definition free_pairs :: "'a list \<Rightarrow> ('a \<times> 'a) set \<Rightarrow> ('a \<times> 'a) list" where
  "free_pairs xs positive_set =
     filter (\<lambda>(a, b). (a, b) \<notin> positive_set \<and> (b, a) \<notin> positive_set) (all_pairs xs)"




subsection \<open>\<open>split_decagon_cv\<close>\<close>

text \<open>
  The values that the expression for the file name adds up.  \<open>opt.path\<close> comes from
  argparse with \<open>nargs=1\<close>: a list of one string when the flag is given, \<open>None\<close>
  otherwise; \<open>opt.n_fold\<close> is an int.  \<open>+\<close> is defined between two strings, two ints
  or two lists, and raises TypeError for every other pair of these values.
\<close>

datatype py_value = NoneVal | StrVal string | IntVal int | ListVal "string list"

fun py_add :: "py_value \<Rightarrow> py_value \<Rightarrow> py_error + py_value" where
  "py_add (StrVal a) (StrVal b) = Inr (StrVal (a @ b))"
| "py_add (IntVal a) (IntVal b) = Inr (IntVal (a + b))"
| "py_add (ListVal a) (ListVal b) = Inr (ListVal (a @ b))"
| "py_add _ _ = Inl TypeError"

text \<open>Line 124: \<open>opt.path + "decagon/" + "folds/" + opt.n_fold + "fold.npy"\<close>.\<close>

definition fold_file_name :: "py_value \<Rightarrow> int \<Rightarrow> py_error + py_value" where
  "fold_file_name path n_fold =
     (case py_add path (StrVal ''decagon/'') of
        Inl e \<Rightarrow> Inl e
      | Inr p1 \<Rightarrow>
          (case py_add p1 (StrVal ''folds/'') of
             Inl e \<Rightarrow> Inl e
           | Inr p2 \<Rightarrow>
               (case py_add p2 (IntVal n_fold) of
                  Inl e \<Rightarrow> Inl e
                | Inr p3 \<Rightarrow> py_add p3 (StrVal ''fold.npy''))))"

text \<open>The dict \<open>{'pos': ..., 'neg': ...}\<close> of one fold.\<close>

record fold_dataset =
  fold_pos :: "(string, drug_pair list) pydict"
  fold_neg :: "(string, drug_pair list) pydict"

text \<open>
  The files on disk, by name; the content of a fold file is the pickled \<open>fold_dataset\<close>,
  kept here as the value itself.
\<close>

type_synonym file_system = "string \<Rightarrow> fold_dataset option"

text \<open>
  The body of the loop of lines 123--128 for one \<open>fold_i\<close>.  \<open>open(name)\<close> opens for
  reading in text mode: FileNotFoundError when the file is missing, TypeError when the
  name is not a string.  \<open>f.write\<close> of the pickled bytes on that handle raises
  TypeError, so no path through the body stores anything.
\<close>

definition write_fold :: "py_value \<Rightarrow> int \<Rightarrow>
    (int, (string, drug_pair list) pydict) pydict \<Rightarrow>
    (int, (string, drug_pair list) pydict) pydict \<Rightarrow> int \<Rightarrow> file_system \<Rightarrow>
    py_error + file_system" where
  "write_fold path n_fold pos_cv_dataset neg_cv_dataset fold_i files =
     (case fold_file_name path n_fold of
        Inl e \<Rightarrow> Inl e
      | Inr (StrVal name) \<Rightarrow>
          (case files name of
             None \<Rightarrow> Inl FileNotFoundError
           | Some _ \<Rightarrow>
               (case (map_of pos_cv_dataset fold_i, map_of neg_cv_dataset fold_i) of
                  (Some p, Some n) \<Rightarrow> Inl TypeError
                | _ \<Rightarrow> Inl KeyError))
      | Inr _ \<Rightarrow> Inl TypeError)"

fun write_folds :: "py_value \<Rightarrow> int \<Rightarrow>
    (int, (string, drug_pair list) pydict) pydict \<Rightarrow>
    (int, (string, drug_pair list) pydict) pydict \<Rightarrow> int list \<Rightarrow> file_system \<Rightarrow>
    py_error + file_system" where
  "write_folds path n_fold pos_cv_dataset neg_cv_dataset [] files = Inr files"
| "write_folds path n_fold pos_cv_dataset neg_cv_dataset (fold_i # rest) files =
     (case write_fold path n_fold pos_cv_dataset neg_cv_dataset fold_i files of
        Inl e \<Rightarrow> Inl e
      | Inr files' \<Rightarrow> write_folds path n_fold pos_cv_dataset neg_cv_dataset rest files')"

record opt =
  opt_path :: py_value
  opt_n_fold :: int
  opt_pos_datasets :: "(string, drug_pair list) pydict"
  opt_neg_datasets :: "(string, drug_pair list) pydict"

text \<open>\<open>split_decagon_cv\<close> returns the files on disk as it leaves them.\<close>

definition split_decagon_cv :: "opt \<Rightarrow> file_system \<Rightarrow> py_error + file_system" where
  "split_decagon_cv opt files =
     (case split_all_cross_validation_datasets (opt_pos_datasets opt) (opt_n_fold opt) of
        Inl e \<Rightarrow> Inl e
      | Inr pos_cv_dataset \<Rightarrow>
          (case split_all_cross_validation_datasets (opt_neg_datasets opt) (opt_n_fold opt) of
             Inl e \<Rightarrow> Inl e
           | Inr neg_cv_dataset \<Rightarrow>
               write_folds (opt_path opt) (opt_n_fold opt) pos_cv_dataset neg_cv_dataset
                 [1 .. opt_n_fold opt] files))"

subsection \<open>\<open>split_qm9_cv\<close>\<close>

text \<open>
  \<open>random.randint(a, b)\<close> takes two arguments and raises TypeError on any other number
  of them; with two it returns an integer from \<open>a\<close> to \<open>b\<close> (ValueError for an
  empty range), chosen here by a natural number from the random source.
\<close>

definition py_randint :: "int list \<Rightarrow> nat \<Rightarrow> py_error + int" where
  "py_randint args r =
     (case args of
        [a, b] \<Rightarrow> if b < a then Inl ValueError else Inr (a + int r mod (b - a + 1))
      | _ \<Rightarrow> Inl TypeError)"

text \<open>The loop \<open>for i in range(10000)\<close> of lines 135--137; the call is \<open>random.randint(0,)\<close>.\<close>

fun qm9_loop :: "int list \<Rightarrow> (int \<Rightarrow> nat) \<Rightarrow> int list \<Rightarrow> py_error + int list" where
  "qm9_loop [] rnd test_indices = Inr test_indices"
| "qm9_loop (i # rest) rnd test_indices =
     (if i \<notin> set test_indices then
        (case py_randint [0] (rnd i) of
           Inl e \<Rightarrow> Inl e
         | Inr v \<Rightarrow> qm9_loop rest rnd (test_indices @ [v]))
      else qm9_loop rest rnd test_indices)"

definition split_qm9_cv :: "(string, 'g) pydict \<Rightarrow> (int \<Rightarrow> nat) \<Rightarrow> py_error + unit" where
  "split_qm9_cv graph_dict rnd =
     (let data_size = length graph_dict
      in (case qm9_loop [0 .. 9999] rnd [] of
            Inl e \<Rightarrow> Inl e
          | Inr test_indices \<Rightarrow> Inr ()))"

definition dict_get_list :: "(string, drug_pair list) pydict \<Rightarrow> string \<Rightarrow> drug_pair list" where
  "dict_get_list d sid = (case map_of d sid of None \<Rightarrow> [] | Some l \<Rightarrow> l)"

definition add_pair :: "(string, drug_pair list) pydict \<Rightarrow> string \<Rightarrow> drug_pair \<Rightarrow> (string, drug_pair list) pydict" where
  "add_pair se sid p =
     AList.update sid (dict_get_list se sid @ [p])
       (if map_of se sid = None then AList.update sid [] se else se)"

definition pairs_ok :: "(string, drug_pair list) pydict \<Rightarrow> bool" where
  "pairs_ok se = (\<forall>(sid, ddis) \<in> set se. \<forall>(a, b) \<in> set ddis. a \<noteq> b)"


text \<open>The invariant of the sampling loop.\<close>

definition neg_inv :: "string list \<Rightarrow> drug_pair set \<Rightarrow> drug_pair list \<Rightarrow> bool" where
  "neg_inv drug_idx_list positive_set negative_set =
     (distinct negative_set \<and>
      (\<forall>(a, b) \<in> set negative_set.
         a \<noteq> b \<and> a \<in> set (np_array drug_idx_list) \<and>
         b \<in> set (np_array drug_idx_list) \<and>
         (b, a) \<notin> set negative_set \<and>
         (a, b) \<notin> positive_set \<and> (b, a) \<notin> positive_set))"

text \<open>A pair without its orientation.\<close>

definition unordered :: "'a \<times> 'a \<Rightarrow> 'a set" where
  "unordered p = {fst p, snd p}"


lemma set_update_subset: "set (AList.update k v al) \<subseteq> insert (k, v) (set al)"
  by (induction al) auto

lemma read_rows_step:
  "0 < i \<Longrightarrow> did1 \<noteq> did2 \<Longrightarrow>
   read_rows i ((did1 # did2 # sid # rest) # rows) se =
     read_rows (i + 1) rows (add_pair se sid (did1, did2))"
  by (auto simp: add_pair_def dict_get_list_def update_conv' split: option.splits)

lemma read_rows_fail:
  "0 < i \<Longrightarrow> \<not> wf_row row \<Longrightarrow> \<exists>e. read_rows i (row # rows) se = Inl e"
  by (cases row rule: wf_row.cases) auto

lemma map_of_add_pair:
  "map_of (add_pair se sid p) s =
     (if s = sid then Some (dict_get_list se sid @ [p]) else map_of se s)"
  by (auto simp: add_pair_def update_conv')

lemma dict_get_list_add_pair:
  "dict_get_list (add_pair se sid p) s =
     (if s = sid then dict_get_list se sid @ [p] else dict_get_list se s)"
  by (simp add: dict_get_list_def map_of_add_pair)

lemma keys_add_pair: "fst ` set (add_pair se sid p) = insert sid (fst ` set se)"
  by (auto simp: add_pair_def dom_update)

lemma distinct_add_pair: "distinct (map fst se) \<Longrightarrow> distinct (map fst (add_pair se sid p))"
  by (simp add: add_pair_def distinct_update)

lemma read_rows_wf:
  assumes "\<forall>r \<in> set rows. wf_row r" and "0 < i"
  shows "\<exists>se'. read_rows i rows se = Inr se' \<and>
           (\<forall>sid. dict_get_list se' sid = dict_get_list se sid @ pairs_for sid rows) \<and>
           (\<forall>sid. sid \<in> fst ` set se' \<longleftrightarrow> sid \<in> fst ` set se \<or> pairs_for sid rows \<noteq> [])"
  using assms
proof (induction rows arbitrary: i se)
  case Nil
  then show ?case by simp
next
  case (Cons row rows)
  from Cons.prems obtain did1 did2 sid rest where
    row: "row = did1 # did2 # sid # rest" and ne: "did1 \<noteq> did2"
    by (cases row rule: wf_row.cases) auto
  have step: "read_rows i (row # rows) se = read_rows (i + 1) rows (add_pair se sid (did1, did2))"
    unfolding row using Cons.prems(2) ne by (rule read_rows_step)
  from Cons.prems have wf: "\<forall>r \<in> set rows. wf_row r" by simp
  from Cons.IH[OF wf, of "i + 1" "add_pair se sid (did1, did2)"] obtain se' where
    r: "read_rows (i + 1) rows (add_pair se sid (did1, did2)) = Inr se'" and
    m: "\<And>s. dict_get_list se' s = dict_get_list (add_pair se sid (did1, did2)) s @ pairs_for s rows" and
    k: "\<And>s. s \<in> fst ` set se' \<longleftrightarrow> s \<in> fst ` set (add_pair se sid (did1, did2)) \<or> pairs_for s rows \<noteq> []"
    by auto
  have "dict_get_list se' s = dict_get_list se s @ pairs_for s (row # rows)" for s
    by (simp add: m dict_get_list_add_pair row)
  moreover have "s \<in> fst ` set se' \<longleftrightarrow> s \<in> fst ` set se \<or> pairs_for s (row # rows) \<noteq> []" for s
    unfolding k keys_add_pair by (auto simp: row)
  ultimately show ?case
    using r step by simp
qed

lemma read_rows_header:
  "read_rows 0 rows se = read_rows 1 (drop 1 rows) se"
  by (cases rows) auto

lemma read_rows_Inr_wf:
  "read_rows i rows se = Inr se' \<Longrightarrow> 0 < i \<Longrightarrow> \<forall>r \<in> set rows. wf_row r"
proof (induction rows arbitrary: i se)
  case Nil
  then show ?case by simp
next
  case (Cons row rows)
  have w: "wf_row row"
    using read_rows_fail[of i row rows se] Cons.prems by auto
  then obtain did1 did2 sid rest where
    row: "row = did1 # did2 # sid # rest" and ne: "did1 \<noteq> did2"
    by (cases row rule: wf_row.cases) auto
  from Cons.prems have "read_rows (i + 1) rows (add_pair se sid (did1, did2)) = Inr se'"
    by (simp only: row read_rows_step[OF Cons.prems(2) ne])
  from Cons.IH[OF this] w show ?case by simp
qed

lemma read_rows_distinct:
  "read_rows i rows se = Inr se' \<Longrightarrow> 0 < i \<Longrightarrow> distinct (map fst se) \<Longrightarrow> distinct (map fst se')"
proof (induction rows arbitrary: i se)
  case Nil
  then show ?case by simp
next
  case (Cons row rows)
  have w: "wf_row row"
    using read_rows_fail[of i row rows se] Cons.prems by auto
  then obtain did1 did2 sid rest where
    row: "row = did1 # did2 # sid # rest" and ne: "did1 \<noteq> did2"
    by (cases row rule: wf_row.cases) auto
  from Cons.prems have "read_rows (i + 1) rows (add_pair se sid (did1, did2)) = Inr se'"
    by (simp only: row read_rows_step[OF Cons.prems(2) ne])
  from Cons.IH[OF this] Cons.prems(3) show ?case by (simp add: distinct_add_pair)
qed

lemma pairs_ok_update:
  "pairs_ok se \<Longrightarrow> \<forall>(a, b) \<in> set v. a \<noteq> b \<Longrightarrow> pairs_ok (AList.update k v se)"
  using set_update_subset[of k v se] unfolding pairs_ok_def by fastforce

lemma pairs_ok_add_pair:
  assumes "pairs_ok se" and "a \<noteq> b"
  shows "pairs_ok (add_pair se sid (a, b))"
proof -
  have "\<forall>(x, y) \<in> set (dict_get_list se sid). x \<noteq> y"
  proof (cases "map_of se sid")
    case None
    then show ?thesis by (simp add: dict_get_list_def)
  next
    case (Some l)
    then have "(sid, l) \<in> set se" by (rule map_of_SomeD)
    with assms(1) show ?thesis
      unfolding pairs_ok_def dict_get_list_def Some by fastforce
  qed
  with assms(2) have "\<forall>(x, y) \<in> set (dict_get_list se sid @ [(a, b)]). x \<noteq> y" by auto
  moreover have "pairs_ok (if map_of se sid = None then AList.update sid [] se else se)"
    using assms(1) by (auto intro: pairs_ok_update)
  ultimately show ?thesis
    unfolding add_pair_def by (rule pairs_ok_update[rotated])
qed

lemma read_rows_pairs_ok:
  "read_rows i rows se = Inr se' \<Longrightarrow> 0 < i \<Longrightarrow> pairs_ok se \<Longrightarrow> pairs_ok se'"
proof (induction rows arbitrary: i se)
  case Nil
  then show ?case by simp
next
  case (Cons row rows)
  have w: "wf_row row"
    using read_rows_fail[of i row rows se] Cons.prems by auto
  then obtain did1 did2 sid rest where
    row: "row = did1 # did2 # sid # rest" and ne: "did1 \<noteq> did2"
    by (cases row rule: wf_row.cases) auto
  from Cons.prems have "read_rows (i + 1) rows (add_pair se sid (did1, did2)) = Inr se'"
    by (simp only: row read_rows_step[OF Cons.prems(2) ne])
  from Cons.IH[OF this] Cons.prems(3) ne show ?case by (simp add: pairs_ok_add_pair)
qed

lemma read_rows_assert:
  assumes "\<forall>r \<in> set rows. 3 \<le> length r" and "\<exists>r \<in> set rows. r ! 0 = r ! 1" and "0 < i"
  shows "read_rows i rows se = Inl AssertionError"
  using assms
proof (induction rows arbitrary: i se)
  case Nil
  then show ?case by simp
next
  case (Cons row rows)
  from Cons.prems(1) obtain did1 did2 sid rest where row: "row = did1 # did2 # sid # rest"
    by (cases row rule: wf_row.cases) auto
  show ?case
  proof (cases "did1 = did2")
    case True
    then show ?thesis using Cons.prems(3) by (simp add: row)
  next
    case False
    with Cons.prems(2) have ex: "\<exists>r \<in> set rows. r ! 0 = r ! 1" by (simp add: row)
    from Cons.prems(1) have len: "\<forall>r \<in> set rows. 3 \<le> length r" by simp
    show ?thesis
      unfolding row read_rows_step[OF Cons.prems(3) False]
      by (rule Cons.IH[OF len ex]) simp
  qed
qed


lemma map_of_filter_distinct:
  "distinct (map fst al) \<Longrightarrow>
   map_of (filter P al) k =
     (case map_of al k of None \<Rightarrow> None | Some v \<Rightarrow> if P (k, v) then Some v else None)"
proof (induction al)
  case Nil
  then show ?case by simp
next
  case (Cons p al)
  obtain k' v' where p: "p = (k', v')" by (cases p)
  from Cons.prems have notin: "k' \<notin> fst ` set al" and d: "distinct (map fst al)"
    by (auto simp: p)
  from notin have none: "map_of al k' = None"
    by (simp add: map_of_eq_None_iff)
  show ?case
    using Cons.IH[OF d] none by (auto simp: p split: option.splits)
qed

lemma read_rows_top:
  assumes "\<forall>r \<in> set (drop 1 rows). wf_row r"
  shows "\<exists>se. read_rows 0 rows [] = Inr se \<and> distinct (map fst se) \<and>
           (\<forall>sid. map_of se sid =
              (if pairs_for sid (drop 1 rows) = [] then None
               else Some (pairs_for sid (drop 1 rows))))"
proof -
  from read_rows_wf[OF assms, of 1 "[]"] obtain se where
    r: "read_rows 1 (drop 1 rows) [] = Inr se" and
    g: "\<And>sid. dict_get_list se sid = pairs_for sid (drop 1 rows)" and
    k: "\<And>sid. sid \<in> fst ` set se \<longleftrightarrow> pairs_for sid (drop 1 rows) \<noteq> []"
    by (auto simp: dict_get_list_def)
  have d: "distinct (map fst se)"
    using read_rows_distinct[OF r] by simp
  have "map_of se sid =
          (if pairs_for sid (drop 1 rows) = [] then None
           else Some (pairs_for sid (drop 1 rows)))" for sid
  proof (cases "map_of se sid")
    case None
    then have "sid \<notin> fst ` set se" by (simp add: map_of_eq_None_iff)
    with k None show ?thesis by simp
  next
    case (Some l)
    then have "sid \<in> fst ` set se" by (metis map_of_eq_None_iff option.distinct(1))
    moreover from Some g[of sid] have "l = pairs_for sid (drop 1 rows)"
      by (simp add: dict_get_list_def)
    ultimately show ?thesis using k Some by simp
  qed
  with r d show ?thesis by (auto simp: read_rows_header)
qed

text \<open>
  Claim C4.  On a CSV whose data rows are well formed, \<open>read_ddi_instances\<close> returns
  normally, and without \<open>use_small_dataset\<close> a side effect is a key of the returned
  dict if and only if its list of drug pairs (the pairs of its data rows, in order) has
  length at least the threshold; the value stored is that list.  With
  \<open>use_small_dataset\<close> the 20 longest of these are kept, so every entry returned still
  has length at least the threshold.  The witness is the example of the specification:
  threshold 498, 500 rows retained, 100 rows dropped.
\<close>

theorem read_ddi_instances_threshold:
  assumes "\<forall>r \<in> set (drop 1 rows). wf_row r"
  shows "(\<exists>ses idx. read_ddi_instances rows th False = Inr (ses, idx) \<and>
            (\<forall>sid. map_of ses sid =
               (if pairs_for sid (drop 1 rows) \<noteq> [] \<and>
                   th \<le> int (length (pairs_for sid (drop 1 rows)))
                then Some (pairs_for sid (drop 1 rows)) else None))) \<and>
         (\<exists>ses idx. read_ddi_instances rows th True = Inr (ses, idx) \<and>
            (\<forall>sid ddis. (sid, ddis) \<in> set ses \<longrightarrow>
               ddis = pairs_for sid (drop 1 rows) \<and> th \<le> int (length ddis)))"
proof -
  from read_rows_top[OF assms] obtain se where
    r: "read_rows 0 rows [] = Inr se" and d: "distinct (map fst se)" and
    m: "\<And>sid. map_of se sid =
              (if pairs_for sid (drop 1 rows) = [] then None
               else Some (pairs_for sid (drop 1 rows)))"
    by blast
  have f: "map_of (filter_threshold th se) sid =
             (if pairs_for sid (drop 1 rows) \<noteq> [] \<and>
                 th \<le> int (length (pairs_for sid (drop 1 rows)))
              then Some (pairs_for sid (drop 1 rows)) else None)" for sid
    unfolding filter_threshold_def map_of_filter_distinct[OF d] m by simp
  have sub: "set (keep_largest (filter_threshold th se)) \<subseteq> set (filter_threshold th se)"
    unfolding keep_largest_def using set_take_subset[of 20] by fastforce
  have "ddis = pairs_for sid (drop 1 rows) \<and> th \<le> int (length ddis)"
    if "(sid, ddis) \<in> set (filter_threshold th se)" for sid ddis
  proof -
    from that have "(sid, ddis) \<in> set se" and "th \<le> int (length ddis)"
      by (auto simp: filter_threshold_def)
    with d have "map_of se sid = Some ddis" by simp
    with m[of sid] \<open>th \<le> int (length ddis)\<close> show ?thesis by (auto split: if_splits)
  qed
  with sub have dbg: "\<forall>sid ddis. (sid, ddis) \<in> set (keep_largest (filter_threshold th se)) \<longrightarrow>
      ddis = pairs_for sid (drop 1 rows) \<and> th \<le> int (length ddis)"
    by blast
  have r1: "read_ddi_instances rows th False =
      Inr (filter_threshold th se, side_effect_idx (filter_threshold th se))"
    by (simp add: read_ddi_instances_def r Let_def)
  have r2: "read_ddi_instances rows th True =
      Inr (keep_largest (filter_threshold th se),
           side_effect_idx (keep_largest (filter_threshold th se)))"
    by (simp add: read_ddi_instances_def r Let_def)
  show ?thesis
    unfolding r1 r2 using f dbg by blast
qed

lemma pairs_for_append: "pairs_for sid (xs @ ys) = pairs_for sid xs @ pairs_for sid ys"
  by (induction xs) (auto split: list.splits)

lemma pairs_for_replicate:
  "pairs_for sid (replicate n [did1, did2, s]) = (if s = sid then replicate n (did1, did2) else [])"
  by (induction n) auto

lemma wf_row3: "wf_row [did1, did2, s] = (did1 \<noteq> did2)"
  by simp

theorem read_ddi_instances_threshold_witness:
  "list_all wf_row (drop 1 ([''drug1'', ''drug2'', ''side_effect''] #
        replicate 500 [''a'', ''b'', ''C0001''] @ replicate 100 [''a'', ''c'', ''C0002''])) \<and>
   (\<exists>ses idx. read_ddi_instances ([''drug1'', ''drug2'', ''side_effect''] #
        replicate 500 [''a'', ''b'', ''C0001''] @ replicate 100 [''a'', ''c'', ''C0002'']) 498 False = Inr (ses, idx) \<and>
      map_of ses ''C0001'' = Some (replicate 500 (''a'', ''b'')) \<and>
      map_of ses ''C0002'' = None)"
proof -
  let ?rows = "[''drug1'', ''drug2'', ''side_effect''] #
        replicate 500 [''a'', ''b'', ''C0001''] @ replicate 100 [''a'', ''c'', ''C0002'']"
  have wf: "\<forall>r \<in> set (drop 1 ?rows). wf_row r" by auto
  have p1: "pairs_for ''C0001'' (drop 1 ?rows) = replicate 500 (''a'', ''b'')"
    by (simp add: pairs_for_append pairs_for_replicate)
  have p2: "pairs_for ''C0002'' (drop 1 ?rows) = replicate 100 (''a'', ''c'')"
    by (simp add: pairs_for_append pairs_for_replicate)
  from read_ddi_instances_threshold[OF wf, of 498] obtain ses idx where
    r: "read_ddi_instances ?rows 498 False = Inr (ses, idx)" and
    m: "\<And>sid. map_of ses sid =
               (if pairs_for sid (drop 1 ?rows) \<noteq> [] \<and>
                   498 \<le> int (length (pairs_for sid (drop 1 ?rows)))
                then Some (pairs_for sid (drop 1 ?rows)) else None)"
    by blast
  have "map_of ses ''C0001'' = Some (replicate 500 (''a'', ''b''))"
    unfolding m p1 by simp
  moreover have "map_of ses ''C0002'' = None"
    unfolding m p2 by simp
  moreover have "list_all wf_row (drop 1 ?rows)"
    using wf unfolding list_all_iff .
  ultimately show ?thesis using r by blast
qed

text \<open>
  Claim C6.  If a data row has \<open>drug_id_1 = drug_id_2\<close>, \<open>read_ddi_instances\<close> does
  not return normally: it raises, and nothing catches the exception.  When every data row
  has the three columns of the CSV format the exception is the AssertionError (a shorter
  row met first raises ValueError on unpacking instead).
\<close>

theorem read_ddi_instances_assert:
  assumes "r \<in> set (drop 1 rows)" and "2 \<le> length r" and "r ! 0 = r ! 1"
  shows "(\<exists>e. read_ddi_instances rows th small = Inl e) \<and>
         ((\<forall>r' \<in> set (drop 1 rows). 3 \<le> length r') \<longrightarrow>
            read_ddi_instances rows th small = Inl AssertionError)"
proof -
  have nwf: "\<not> wf_row r"
    using assms(3) by (cases r rule: wf_row.cases) auto
  have "\<exists>e. read_rows 0 rows [] = Inl e"
  proof (cases "read_rows 0 rows []")
    case (Inl e)
    then show ?thesis by blast
  next
    case (Inr se)
    then have "read_rows 1 (drop 1 rows) [] = Inr se" by (simp add: read_rows_header)
    from read_rows_Inr_wf[OF this] assms(1) nwf show ?thesis by auto
  qed
  moreover have "read_rows 0 rows [] = Inl AssertionError"
    if "\<forall>r' \<in> set (drop 1 rows). 3 \<le> length r'"
    unfolding read_rows_header
    by (rule read_rows_assert[OF that]) (use assms in auto)
  ultimately show ?thesis
    by (auto simp: read_ddi_instances_def)
qed

theorem read_ddi_instances_assert_witness:
  "[''a'', ''a'', ''C1''] \<in> set (drop 1 [[''d1'', ''d2'', ''se''], [''a'', ''b'', ''C1''], [''a'', ''a'', ''C1'']]) \<and>
   2 \<le> length [''a'', ''a'', ''C1''] \<and> [''a'', ''a'', ''C1''] ! 0 = [''a'', ''a'', ''C1''] ! 1 \<and>
   list_all (\<lambda>r'. 3 \<le> length r')
     (drop 1 [[''d1'', ''d2'', ''se''], [''a'', ''b'', ''C1''], [''a'', ''a'', ''C1'']]) \<and>
   read_ddi_instances [[''d1'', ''d2'', ''se''], [''a'', ''b'', ''C1''], [''a'', ''a'', ''C1'']] 498 False
     = Inl AssertionError"
  using read_ddi_instances_assert[of "[''a'', ''a'', ''C1'']"
      "[[''d1'', ''d2'', ''se''], [''a'', ''b'', ''C1''], [''a'', ''a'', ''C1'']]" 498 False]
  by simp

lemma py_slice_nat:
  "a \<le> b \<Longrightarrow> b \<le> length xs \<Longrightarrow>
   py_slice xs (int a) (int b) = take (b - a) (drop a xs)"
  by (simp add: py_slice_def Let_def min_def nat_diff_distrib)

lemma assign_folds_ok:
  assumes "\<forall>i \<in> set is. map_of cv i \<noteq> None"
  shows "\<exists>cv'. assign_folds se xs n fl is cv = Inr cv' \<and>
           (\<forall>j. map_of cv' j = None \<longleftrightarrow> map_of cv j = None) \<and>
           (\<forall>j s. fold_lookup cv' j s =
              (if j \<in> set is \<and> s = se then Some (fold_slice xs n fl j)
               else fold_lookup cv j s))"
  using assms
proof (induction "is" arbitrary: cv)
  case Nil
  then show ?case by simp
next
  case (Cons i "is")
  from Cons.prems obtain d where d: "map_of cv i = Some d" by auto
  define cv1 where "cv1 = AList.update i (AList.update se (fold_slice xs n fl i) d) cv"
  have step: "assign_folds se xs n fl (i # is) cv = assign_folds se xs n fl is cv1"
    by (simp add: d cv1_def)
  have m1: "map_of cv1 j = (if j = i then Some (AList.update se (fold_slice xs n fl i) d) else map_of cv j)" for j
    by (simp add: cv1_def update_conv')
  have l1: "fold_lookup cv1 j s =
      (if j = i \<and> s = se then Some (fold_slice xs n fl i) else fold_lookup cv j s)" for j s
    by (auto simp: fold_lookup_def m1 d update_conv')
  have "\<forall>k \<in> set is. map_of cv1 k \<noteq> None"
    using Cons.prems by (simp add: m1)
  from Cons.IH[OF this] obtain cv' where
    r: "assign_folds se xs n fl is cv1 = Inr cv'" and
    k: "\<And>j. map_of cv' j = None \<longleftrightarrow> map_of cv1 j = None" and
    l: "\<And>j s. fold_lookup cv' j s =
              (if j \<in> set is \<and> s = se then Some (fold_slice xs n fl j)
               else fold_lookup cv1 j s)"
    by blast
  have "map_of cv' j = None \<longleftrightarrow> map_of cv j = None" for j
    unfolding k m1 using d by auto
  moreover have "fold_lookup cv' j s =
              (if j \<in> set (i # is) \<and> s = se then Some (fold_slice xs n fl j)
               else fold_lookup cv j s)" for j s
    unfolding l l1 by auto
  ultimately show ?case
    unfolding step r by blast
qed

lemma split_loop_ok:
  assumes "n \<noteq> 0" and "\<forall>s \<in> set ses. map_of ds s \<noteq> None"
    and "\<forall>i \<in> {1 .. n}. map_of cv i \<noteq> None"
  shows "\<exists>cv'. split_loop ses ds n cv = Inr cv' \<and>
           (\<forall>j. map_of cv' j = None \<longleftrightarrow> map_of cv j = None) \<and>
           (\<forall>j s. fold_lookup cv' j s =
              (if j \<in> {1 .. n} \<and> s \<in> set ses
               then map_option (\<lambda>xs. fold_slice xs n (int (length xs) div n) j) (map_of ds s)
               else fold_lookup cv j s))"
  using assms
proof (induction ses arbitrary: cv)
  case Nil
  then show ?case by simp
next
  case (Cons se ses)
  from Cons.prems(2) obtain xs where xs: "map_of ds se = Some xs" by auto
  let ?fl = "int (length xs) div n"
  have "\<forall>i \<in> set [1 .. n]. map_of cv i \<noteq> None"
    using Cons.prems(3) by simp
  from assign_folds_ok[OF this, of se xs n ?fl] obtain cv1 where
    a: "assign_folds se xs n ?fl [1 .. n] cv = Inr cv1" and
    k1: "\<And>j. map_of cv1 j = None \<longleftrightarrow> map_of cv j = None" and
    l1: "\<And>j s. fold_lookup cv1 j s =
              (if j \<in> set [1 .. n] \<and> s = se then Some (fold_slice xs n ?fl j)
               else fold_lookup cv j s)"
    by blast
  have step: "split_loop (se # ses) ds n cv = split_loop ses ds n cv1"
    using Cons.prems(1) by (simp add: xs a)
  have p2: "\<forall>s \<in> set ses. map_of ds s \<noteq> None" using Cons.prems(2) by simp
  have p3: "\<forall>i \<in> {1 .. n}. map_of cv1 i \<noteq> None" using Cons.prems(3) k1 by simp
  from Cons.IH[OF Cons.prems(1) p2 p3] obtain cv' where
    r: "split_loop ses ds n cv1 = Inr cv'" and
    k: "\<And>j. map_of cv' j = None \<longleftrightarrow> map_of cv1 j = None" and
    l: "\<And>j s. fold_lookup cv' j s =
              (if j \<in> {1 .. n} \<and> s \<in> set ses
               then map_option (\<lambda>xs. fold_slice xs n (int (length xs) div n) j) (map_of ds s)
               else fold_lookup cv1 j s)"
    by blast
  have "map_of cv' j = None \<longleftrightarrow> map_of cv j = None" for j
    unfolding k k1 ..
  moreover have "fold_lookup cv' j s =
              (if j \<in> {1 .. n} \<and> s \<in> set (se # ses)
               then map_option (\<lambda>xs. fold_slice xs n (int (length xs) div n) j) (map_of ds s)
               else fold_lookup cv j s)" for j s
    unfolding l l1 using xs by auto
  ultimately show ?case
    unfolding step r by blast
qed

lemma map_of_const_keys:
  "map_of (map (\<lambda>x. (x, v)) ks) i = (if i \<in> set ks then Some v else None)"
  by (induction ks) auto

lemma map_of_init_folds:
  "map_of (map (\<lambda>x. (x, [])) [1 .. n]) i = (if i \<in> {1 .. n} then Some [] else None)"
  by (simp add: map_of_const_keys)

lemma split_all_ok:
  assumes "n \<noteq> 0"
  shows "\<exists>cv. split_all_cross_validation_datasets ds n = Inr cv \<and>
           (\<forall>j. map_of cv j \<noteq> None \<longleftrightarrow> j \<in> {1 .. n}) \<and>
           (\<forall>j s. fold_lookup cv j s =
              (if j \<in> {1 .. n}
               then map_option (\<lambda>xs. fold_slice xs n (int (length xs) div n) j) (map_of ds s)
               else None))"
proof -
  let ?cv0 = "map (\<lambda>x. (x, [])) [1 .. n] :: (int, (string, 'a list) pydict) pydict"
  have keys: "\<forall>s \<in> set (map fst ds). map_of ds s \<noteq> None"
    by (simp add: map_of_eq_None_iff)
  have init: "\<forall>i \<in> {1 .. n}. map_of ?cv0 i \<noteq> None"
    by (simp add: map_of_init_folds)
  from split_loop_ok[OF assms keys init] obtain cv where
    r: "split_loop (map fst ds) ds n ?cv0 = Inr cv" and
    k: "\<And>j. map_of cv j = None \<longleftrightarrow> map_of ?cv0 j = None" and
    l: "\<And>j s. fold_lookup cv j s =
              (if j \<in> {1 .. n} \<and> s \<in> set (map fst ds)
               then map_option (\<lambda>xs. fold_slice xs n (int (length xs) div n) j) (map_of ds s)
               else fold_lookup ?cv0 j s)"
    by blast
  have l0: "fold_lookup ?cv0 j s = None" for j s
    by (simp add: fold_lookup_def map_of_init_folds)
  have "map_of cv j \<noteq> None \<longleftrightarrow> j \<in> {1 .. n}" for j
    unfolding k by (simp add: map_of_init_folds)
  moreover have "fold_lookup cv j s =
              (if j \<in> {1 .. n}
               then map_option (\<lambda>xs. fold_slice xs n (int (length xs) div n) j) (map_of ds s)
               else None)" for j s
  proof (cases "s \<in> set (map fst ds)")
    case True
    then show ?thesis unfolding l l0 by simp
  next
    case False
    then have "map_of ds s = None" by (simp add: map_of_eq_None_iff)
    then show ?thesis unfolding l l0 by simp
  qed
  ultimately show ?thesis
    unfolding split_all_cross_validation_datasets_def r by blast
qed


lemma fold_slice_inner:
  assumes "1 \<le> n" and "1 \<le> i" and "i < n"
  shows "fold_slice xs n (int (length xs) div n) i =
           take (length xs div nat n) (drop (nat (i - 1) * (length xs div nat n)) xs)"
    and "length (fold_slice xs n (int (length xs) div n) i) = length xs div nat n"
proof -
  define N where "N = nat n"
  define k where "k = nat (i - 1)"
  define fl where "fl = length xs div N"
  have n: "n = int N" and i: "i = int k + 1" using assms by (simp_all add: N_def k_def)
  have kN: "k + 1 < N" using assms by (simp add: N_def k_def)
  have fl: "int (length xs) div n = int fl" by (simp add: n fl_def zdiv_int)
  have "(k + 1) * fl \<le> N * fl" using kN by (intro mult_le_mono1) simp
  also have "N * fl \<le> length xs" by (simp add: fl_def)
  finally have le: "(k + 1) * fl \<le> length xs" .
  have s: "(i - 1) * int fl = int (k * fl)" by (simp add: i)
  have e: "i * int fl = int ((k + 1) * fl)" by (simp add: i algebra_simps)
  have "py_slice xs (int (k * fl)) (int ((k + 1) * fl)) =
          take ((k + 1) * fl - k * fl) (drop (k * fl) xs)"
    by (rule py_slice_nat) (use le in simp_all)
  then have sl: "py_slice xs (int (k * fl)) (int ((k + 1) * fl)) = take fl (drop (k * fl) xs)"
    by simp
  show "fold_slice xs n (int (length xs) div n) i =
           take (length xs div nat n) (drop (nat (i - 1) * (length xs div nat n)) xs)"
    unfolding fold_slice_def Let_def fl s e using assms(3) sl
    by (simp add: N_def[symmetric] k_def[symmetric] fl_def[symmetric])
  then show "length (fold_slice xs n (int (length xs) div n) i) = length xs div nat n"
    using le by (simp add: N_def[symmetric] k_def[symmetric] fl_def[symmetric])
qed

lemma fold_slice_last:
  assumes "1 \<le> n"
  shows "fold_slice xs n (int (length xs) div n) n =
           drop (nat (n - 1) * (length xs div nat n)) xs"
    and "length (fold_slice xs n (int (length xs) div n) n) =
           length xs div nat n + length xs mod nat n"
proof -
  define N where "N = nat n"
  define k where "k = nat (n - 1)"
  define fl where "fl = length xs div N"
  have n: "n = int N" and i: "n = int k + 1" using assms by (simp_all add: N_def k_def)
  have kN: "k + 1 = N" using assms by (simp add: N_def k_def)
  have fl: "int (length xs) div n = int fl" by (simp add: n fl_def zdiv_int)
  have "k * fl \<le> N * fl" using kN by (intro mult_le_mono1) simp
  also have "N * fl \<le> length xs" by (simp add: fl_def)
  finally have le: "k * fl \<le> length xs" .
  have s: "(n - 1) * int fl = int (k * fl)" by (simp add: i)
  have "py_slice xs (int (k * fl)) (int (length xs)) =
          take (length xs - k * fl) (drop (k * fl) xs)"
    by (rule py_slice_nat) (use le in simp_all)
  then have sl: "py_slice xs (int (k * fl)) (int (length xs)) = drop (k * fl) xs"
    by simp
  show eq: "fold_slice xs n (int (length xs) div n) n =
           drop (nat (n - 1) * (length xs div nat n)) xs"
    unfolding fold_slice_def Let_def fl s using sl
    by (simp add: N_def[symmetric] k_def[symmetric] fl_def[symmetric])
  have "length xs = N * fl + length xs mod N"
    by (simp add: fl_def)
  also have "N * fl = k * fl + fl" using kN by (metis add_mult_distrib mult_1 add.commute mult.commute)
  finally have "length xs - k * fl = fl + length xs mod N" by simp
  then show "length (fold_slice xs n (int (length xs) div n) n) =
           length xs div nat n + length xs mod nat n"
    unfolding eq by (simp add: N_def[symmetric] k_def[symmetric] fl_def[symmetric])
qed


lemma concat_takes:
  "concat (map (\<lambda>i. take fl (drop (nat (i - 1) * fl) xs)) [1 .. int k]) = take (k * fl) xs"
proof (induction k)
  case 0
  then show ?case by simp
next
  case (Suc k)
  have "[1 .. int (Suc k)] = [1 .. int k] @ [int k + 1]"
    using upto_rec2[of 1 "int k + 1"] by (simp add: add.commute)
  then have "concat (map (\<lambda>i. take fl (drop (nat (i - 1) * fl) xs)) [1 .. int (Suc k)]) =
      take (k * fl) xs @ take fl (drop (k * fl) xs)"
    using Suc by simp
  also have "\<dots> = take (k * fl + fl) xs"
    by (rule take_add[symmetric])
  finally show ?case by (simp add: add.commute)
qed

lemma split_folds_of:
  assumes "1 \<le> n" and "map_of ds se = Some xs"
  shows "\<exists>cv. split_all_cross_validation_datasets ds n = Inr cv \<and>
           (\<forall>i \<in> {1 .. n}. fold_lookup cv i se =
              Some (fold_slice xs n (int (length xs) div n) i))"
proof -
  from assms(1) have "n \<noteq> 0" by simp
  from split_all_ok[OF this, of ds] assms(2) show ?thesis by auto
qed

text \<open>
  Claim C2.  For every side effect \<open>se\<close> of the datasets and every \<open>n_fold \<ge> 1\<close>,
  \<open>split_all_cross_validation_datasets\<close> returns normally, every fold \<open>1 .. n_fold\<close>
  holds a list for \<open>se\<close>, and the lengths of these lists add up to the length of the
  list of \<open>se\<close>.
\<close>

theorem split_fold_counts_sum:
  assumes "1 \<le> n_fold" and "map_of datasets se = Some xs"
  shows "\<exists>cv. split_all_cross_validation_datasets datasets n_fold = Inr cv \<and>
           (\<exists>f. (\<forall>i \<in> {1 .. n_fold}. fold_lookup cv i se = Some (f i)) \<and>
                (\<Sum>i = 1 .. n_fold. length (f i)) = length xs)"
proof -
  let ?f = "\<lambda>i. fold_slice xs n_fold (int (length xs) div n_fold) i"
  define N where "N = nat n_fold"
  define fl where "fl = length xs div N"
  from split_folds_of[OF assms] obtain cv where
    r: "split_all_cross_validation_datasets datasets n_fold = Inr cv" and
    l: "\<forall>i \<in> {1 .. n_fold}. fold_lookup cv i se = Some (?f i)"
    by blast
  have ins: "{1 .. n_fold} = insert n_fold {1 ..< n_fold}"
    using assms(1) by auto
  have inner: "(\<Sum>i \<in> {1 ..< n_fold}. length (?f i)) = (\<Sum>i \<in> {1 ..< n_fold}. fl)"
    by (rule sum.cong) (simp_all add: fold_slice_inner(2)[OF assms(1)] fl_def N_def)
  have c: "card {1 ..< n_fold} = N - 1"
    using assms(1) unfolding N_def by simp
  have "(\<Sum>i \<in> {1 ..< n_fold}. fl) = (N - 1) * fl"
    unfolding sum_constant c by simp
  then have "(\<Sum>i = 1 .. n_fold. length (?f i)) = length (?f n_fold) + (N - 1) * fl"
    unfolding ins using inner by simp
  also have "\<dots> = fl + length xs mod N + (N - 1) * fl"
    by (simp add: fold_slice_last(2)[OF assms(1)] fl_def N_def)
  also have "\<dots> = N * fl + length xs mod N"
  proof -
    have "1 \<le> N" using assms(1) by (simp add: N_def)
    then have "fl + (N - 1) * fl = N * fl"
      by (cases N) simp_all
    then show ?thesis by simp
  qed
  also have "\<dots> = length xs" by (simp add: fl_def)
  finally have "(\<Sum>i = 1 .. n_fold. length (?f i)) = length xs" .
  with r l show ?thesis by blast
qed

theorem split_fold_counts_sum_witness:
  "(1::int) \<le> 3 \<and> map_of [(''C1'', [1, 2, 3, 4, 5, 6, 7 :: nat])] ''C1'' = Some [1, 2, 3, 4, 5, 6, 7] \<and>
   (\<exists>cv. split_all_cross_validation_datasets [(''C1'', [1, 2, 3, 4, 5, 6, 7 :: nat])] 3 = Inr cv \<and>
      (\<exists>f. (\<forall>i \<in> {1 .. 3}. fold_lookup cv i ''C1'' = Some (f i)) \<and>
           (\<Sum>i = 1 .. 3. length (f i)) = length [1, 2, 3, 4, 5, 6, 7 :: nat]))"
  using split_fold_counts_sum[of 3 "[(''C1'', [1, 2, 3, 4, 5, 6, 7 :: nat])]" "''C1''" "[1, 2, 3, 4, 5, 6, 7]"]
  by simp

text \<open>
  Claim C3.  For a list \<open>xs\<close> of length \<open>L\<close> and \<open>n_fold = N \<ge> 1\<close>, fold \<open>i\<close> with
  \<open>1 \<le> i < N\<close> is the contiguous slice of length \<open>L div N\<close> at offset
  \<open>(i - 1) * (L div N)\<close>, the last fold is the remaining suffix, of length
  \<open>L div N + L mod N\<close>, and the folds in order, put end to end, are \<open>xs\<close> again: no
  element changes place.
\<close>

theorem split_contiguous:
  assumes "1 \<le> n_fold" and "map_of datasets se = Some xs"
  shows "\<exists>cv f. split_all_cross_validation_datasets datasets n_fold = Inr cv \<and>
           (\<forall>i \<in> {1 .. n_fold}. fold_lookup cv i se = Some (f i)) \<and>
           (\<forall>i. 1 \<le> i \<and> i < n_fold \<longrightarrow>
              f i = take (length xs div nat n_fold)
                      (drop (nat (i - 1) * (length xs div nat n_fold)) xs) \<and>
              length (f i) = length xs div nat n_fold) \<and>
           f n_fold = drop (nat (n_fold - 1) * (length xs div nat n_fold)) xs \<and>
           length (f n_fold) = length xs div nat n_fold + length xs mod nat n_fold \<and>
           concat (map f [1 .. n_fold]) = xs"
proof -
  let ?f = "\<lambda>i. fold_slice xs n_fold (int (length xs) div n_fold) i"
  define fl where "fl = length xs div nat n_fold"
  from split_folds_of[OF assms] obtain cv where
    r: "split_all_cross_validation_datasets datasets n_fold = Inr cv" and
    l: "\<forall>i \<in> {1 .. n_fold}. fold_lookup cv i se = Some (?f i)"
    by blast
  have inner: "\<forall>i. 1 \<le> i \<and> i < n_fold \<longrightarrow>
      ?f i = take fl (drop (nat (i - 1) * fl) xs) \<and> length (?f i) = fl"
  proof (intro allI impI)
    fix i assume i: "1 \<le> i \<and> i < n_fold"
    then have "1 \<le> i" and "i < n_fold" by simp_all
    from fold_slice_inner[OF assms(1) this, of xs]
    show "?f i = take fl (drop (nat (i - 1) * fl) xs) \<and> length (?f i) = fl"
      by (simp add: fl_def)
  qed
  have last: "?f n_fold = drop (nat (n_fold - 1) * fl) xs"
    and lastlen: "length (?f n_fold) = fl + length xs mod nat n_fold"
    using fold_slice_last[OF assms(1), of xs] by (simp_all add: fl_def)
  have up: "[1 .. n_fold] = [1 .. int (nat (n_fold - 1))] @ [n_fold]"
    using assms(1) upto_rec2[of 1 n_fold] by simp
  have "map ?f [1 .. int (nat (n_fold - 1))] =
        map (\<lambda>i. take fl (drop (nat (i - 1) * fl) xs)) [1 .. int (nat (n_fold - 1))]"
    by (rule map_cong) (use inner assms(1) in auto)
  then have "concat (map ?f [1 .. int (nat (n_fold - 1))]) = take (nat (n_fold - 1) * fl) xs"
    by (simp only: concat_takes)
  then have cc: "concat (map ?f [1 .. n_fold]) = xs"
    unfolding up by (simp add: last)
  show ?thesis
    using r l inner last lastlen cc unfolding fl_def by blast
qed

theorem split_contiguous_witness:
  "(1::int) \<le> 3 \<and> map_of [(''C1'', [1, 2, 3, 4, 5, 6, 7 :: nat])] ''C1'' = Some [1, 2, 3, 4, 5, 6, 7] \<and>
   (\<exists>cv f. split_all_cross_validation_datasets [(''C1'', [1, 2, 3, 4, 5, 6, 7 :: nat])] 3 = Inr cv \<and>
      (\<forall>i \<in> {1 .. 3}. fold_lookup cv i ''C1'' = Some (f i)) \<and>
      f 1 = [1, 2] \<and> f 2 = [3, 4] \<and> f 3 = [5, 6, 7] \<and>
      concat (map f [1 .. 3]) = [1, 2, 3, 4, 5, 6, 7])"
proof -
  have h1: "(1::int) \<le> 3" by simp
  have h2: "map_of [(''C1'', [1, 2, 3, 4, 5, 6, 7 :: nat])] ''C1'' = Some [1, 2, 3, 4, 5, 6, 7]"
    by simp
  from split_contiguous[OF h1 h2] obtain cv f where
    r: "split_all_cross_validation_datasets [(''C1'', [1, 2, 3, 4, 5, 6, 7 :: nat])] 3 = Inr cv" and
    l: "\<forall>i \<in> {1 .. 3}. fold_lookup cv i ''C1'' = Some (f i)" and
    i: "\<forall>i. 1 \<le> i \<and> i < 3 \<longrightarrow>
          f i = take (length [1, 2, 3, 4, 5, 6, 7 :: nat] div nat 3)
                  (drop (nat (i - 1) * (length [1, 2, 3, 4, 5, 6, 7 :: nat] div nat 3))
                     [1, 2, 3, 4, 5, 6, 7]) \<and>
          length (f i) = length [1, 2, 3, 4, 5, 6, 7 :: nat] div nat 3" and
    e: "f 3 = drop (nat (3 - 1) * (length [1, 2, 3, 4, 5, 6, 7 :: nat] div nat 3))
                 [1, 2, 3, 4, 5, 6, 7]" and
    c: "concat (map f [1 .. 3]) = [1, 2, 3, 4, 5, 6, 7]"
    by blast
  from i have "f 1 = [1, 2]" "f 2 = [3, 4]" by simp_all
  moreover from e have "f 3 = [5, 6, 7]" by simp
  ultimately show ?thesis using h1 h2 r l c by blast
qed

lemma choice_positions_range:
  assumes "2 \<le> n"
  shows "\<exists>i j. i < n \<and> j < n \<and> i \<noteq> j \<and> choice_positions n r = (i, j)"
proof -
  define i where "i = fst r mod n"
  define k where "k = snd r mod (n - 1)"
  define j where "j = (if k < i then k else k + 1)"
  from assms have "0 < n" and "0 < n - 1" by simp_all
  then have i: "i < n" and k: "k < n - 1" by (simp_all add: i_def k_def)
  moreover from k have "j < n" and "i \<noteq> j" by (auto simp: j_def)
  moreover have "choice_positions n r = (i, j)"
    by (simp add: choice_positions_def Let_def i_def k_def j_def)
  ultimately show ?thesis by blast
qed

lemma pick2_positions:
  assumes "2 \<le> length xs"
  shows "\<exists>i j. i < length xs \<and> j < length xs \<and> i \<noteq> j \<and>
           pick2 xs r = (np_array xs ! i, np_array xs ! j)"
proof -
  from choice_positions_range[OF assms, of r] obtain i j where
    "i < length xs" "j < length xs" "i \<noteq> j" "choice_positions (length xs) r = (i, j)"
    by blast
  then show ?thesis by (auto simp: pick2_def)
qed


lemma pick2_in_set:
  assumes "2 \<le> length xs"
  shows "fst (pick2 xs r) \<in> set (np_array xs)" and "snd (pick2 xs r) \<in> set (np_array xs)"
proof -
  from pick2_positions[OF assms(1), of r] obtain i j where
    ij: "i < length xs" "j < length xs" "i \<noteq> j"
      "pick2 xs r = (np_array xs ! i, np_array xs ! j)" by blast
  have len: "length (np_array xs) = length xs" by (simp add: np_array_def)
  from ij len show "fst (pick2 xs r) \<in> set (np_array xs)"
    and "snd (pick2 xs r) \<in> set (np_array xs)" by simp_all
qed

lemma neg_inv_insert:
  assumes "neg_inv ds P neg" and "a \<noteq> b"
    and "a \<in> set (np_array ds)" and "b \<in> set (np_array ds)"
    and "(a, b) \<notin> set neg" and "(b, a) \<notin> set neg" and "(a, b) \<notin> P" and "(b, a) \<notin> P"
  shows "neg_inv ds P (List.insert (a, b) neg)"
  using assms unfolding neg_inv_def by (auto simp: List.insert_def)

lemma sample_loop_inv:
  "sample_loop ds P sz neg draws = Some (Inr res) \<Longrightarrow> neg_inv ds P neg \<Longrightarrow> neg_inv ds P res"
proof (induction draws arbitrary: neg)
  case Nil
  then show ?case by (simp split: if_splits)
next
  case (Cons r draws)
  show ?case
  proof (cases "length neg < sz")
    case False
    with Cons.prems show ?thesis by simp
  next
    case True
    show ?thesis
    proof (cases "length ds < 2")
      case True
      with Cons.prems \<open>length neg < sz\<close> show ?thesis by (simp add: random_choice2_def)
    next
      case False
      obtain a b where p: "pick2 ds r = (a, b)" by (cases "pick2 ds r")
      from False have len: "2 \<le> length ds" by simp
      from pick2_in_set[OF len, of r] p have mem: "a \<in> set (np_array ds)" "b \<in> set (np_array ds)"
        by simp_all
      have rc: "random_choice2 ds r = Inr (a, b)"
        using False by (simp add: random_choice2_def p)
      from Cons.prems(1) True rc have ne: "a \<noteq> b" by (auto split: if_splits)
      consider (seen) "(a, b) \<in> set neg \<or> (b, a) \<in> set neg"
        | (pos) "\<not> ((a, b) \<in> set neg \<or> (b, a) \<in> set neg)" "(a, b) \<in> P \<or> (b, a) \<in> P"
        | (new) "\<not> ((a, b) \<in> set neg \<or> (b, a) \<in> set neg)" "\<not> ((a, b) \<in> P \<or> (b, a) \<in> P)"
        by blast
      then show ?thesis
      proof cases
        case seen
        with Cons.prems(1) True rc ne have "sample_loop ds P sz neg draws = Some (Inr res)"
          by simp
        from Cons.IH[OF this Cons.prems(2)] show ?thesis .
      next
        case pos
        with Cons.prems(1) True rc ne have "sample_loop ds P sz neg draws = Some (Inr res)"
          by simp
        from Cons.IH[OF this Cons.prems(2)] show ?thesis .
      next
        case new
        with Cons.prems(1) True rc ne
        have "sample_loop ds P sz (List.insert (a, b) neg) draws = Some (Inr res)"
          by simp
        moreover have "neg_inv ds P (List.insert (a, b) neg)"
          using Cons.prems(2) ne mem new by (intro neg_inv_insert) auto
        ultimately show ?thesis by (rule Cons.IH)
      qed
    qed
  qed
qed

lemma neg_inv_Nil: "neg_inv ds P []"
  by (simp add: neg_inv_def)

lemma create_negative_instances_inv:
  "create_negative_instances ds P sz draws = Some (Inr res) \<Longrightarrow> neg_inv ds P res"
  unfolding create_negative_instances_def Let_def
  by (rule sample_loop_inv[OF _ neg_inv_Nil])


lemma sample_run_example:
  "create_negative_instances [''a'', ''b'', ''c''] {(''a'', ''b'')} (Some 2)
     [(0, 0), (1, 0), (0, 1), (2, 1)] = Some (Inr [(''c'', ''b''), (''a'', ''c'')])"
  by (simp add: create_negative_instances_def random_choice2_def pick2_def
      choice_positions_def np_array_def strip_nul_def Let_def)

text \<open>
  Claim C1.  Every pair that \<open>create_negative_instances\<close> returns is absent from the
  positive set passed in, in both orientations.
\<close>

theorem negative_not_positive:
  assumes "create_negative_instances drug_idx_list positive_set size' draws = Some (Inr negs)"
    and "(d1, d2) \<in> set negs"
  shows "(d1, d2) \<notin> positive_set \<and> (d2, d1) \<notin> positive_set"
  using create_negative_instances_inv[OF assms(1)] assms(2)
  unfolding neg_inv_def by auto

theorem negative_not_positive_witness:
  "create_negative_instances [''a'', ''b'', ''c''] {(''a'', ''b'')} (Some 2)
     [(0, 0), (1, 0), (0, 1), (2, 1)] = Some (Inr [(''c'', ''b''), (''a'', ''c'')]) \<and>
   (''c'', ''b'') \<in> set [(''c'', ''b''), (''a'', ''c'')] \<and>
   (''c'', ''b'') \<notin> {(''a'', ''b'')} \<and> (''b'', ''c'') \<notin> {(''a'', ''b'')}"
proof -
  have m: "(''c'', ''b'') \<in> set [(''c'', ''b''), (''a'', ''c'')]" by simp
  from negative_not_positive[OF sample_run_example m] sample_run_example m
  show ?thesis by blast
qed

text \<open>
  Claim C9.  The list that \<open>create_negative_instances\<close> returns has no pair twice and
  never both orientations of a pair: the pairs \<open>(a, b)\<close> and \<open>(c, d)\<close> at two different
  positions satisfy \<open>(a, b) \<noteq> (c, d)\<close> and \<open>(a, b) \<noteq> (d, c)\<close>.
\<close>

theorem negative_no_duplicates:
  assumes "create_negative_instances drug_idx_list positive_set size' draws = Some (Inr negs)"
    and "i < length negs" and "j < length negs" and "i \<noteq> j"
    and "negs ! i = (a, b)" and "negs ! j = (c, d)"
  shows "(a, b) \<noteq> (c, d) \<and> (a, b) \<noteq> (d, c)"
proof -
  from create_negative_instances_inv[OF assms(1)]
  have d: "distinct negs" and sw: "\<And>x y. (x, y) \<in> set negs \<Longrightarrow> (y, x) \<notin> set negs"
    unfolding neg_inv_def by auto
  from d assms(2-6) have "(a, b) \<noteq> (c, d)"
    by (metis nth_eq_iff_index_eq)
  moreover have "(a, b) \<noteq> (d, c)"
  proof
    assume "(a, b) = (d, c)"
    moreover from assms(2,5) have "(a, b) \<in> set negs" by (metis nth_mem)
    moreover from assms(3,6) have "(c, d) \<in> set negs" by (metis nth_mem)
    ultimately show False using sw by auto
  qed
  ultimately show ?thesis ..
qed

theorem negative_no_duplicates_witness:
  "create_negative_instances [''a'', ''b'', ''c''] {(''a'', ''b'')} (Some 2)
     [(0, 0), (1, 0), (0, 1), (2, 1)] = Some (Inr [(''c'', ''b''), (''a'', ''c'')]) \<and>
   (0::nat) < length [(''c'', ''b''), (''a'', ''c'')] \<and>
   (1::nat) < length [(''c'', ''b''), (''a'', ''c'')] \<and> (0::nat) \<noteq> 1 \<and>
   [(''c'', ''b''), (''a'', ''c'')] ! 0 = (''c'', ''b'') \<and>
   [(''c'', ''b''), (''a'', ''c'')] ! 1 = (''a'', ''c'') \<and>
   (''c'', ''b'') \<noteq> (''a'', ''c'') \<and> (''c'', ''b'') \<noteq> (''c'', ''a'')"
  using negative_no_duplicates[OF sample_run_example, of 0 1 "''c''" "''b''" "''a''" "''c''"]
    sample_run_example
  by simp

lemma read_ddi_instances_subset:
  assumes "read_ddi_instances rows th small = Inr (ses, idx)"
  shows "\<exists>se. read_rows 0 rows [] = Inr se \<and> set ses \<subseteq> set se"
proof -
  from assms obtain se where r: "read_rows 0 rows [] = Inr se"
    by (auto simp: read_ddi_instances_def split: sum.splits)
  have "set (keep_largest (filter_threshold th se)) \<subseteq> set (filter_threshold th se)"
    unfolding keep_largest_def using set_take_subset[of 20] by fastforce
  moreover have "set (filter_threshold th se) \<subseteq> set se"
    by (auto simp: filter_threshold_def)
  ultimately have "set ses \<subseteq> set se"
    using assms r by (auto simp: read_ddi_instances_def Let_def split: if_splits)
  with r show ?thesis by blast
qed

lemma read_rows_top_pairs_ok:
  assumes "read_rows 0 rows [] = Inr se"
  shows "pairs_ok se"
proof -
  from assms have "read_rows 1 (drop 1 rows) [] = Inr se" by (simp add: read_rows_header)
  from read_rows_pairs_ok[OF this] show ?thesis by (simp add: pairs_ok_def)
qed

text \<open>
  Claim C7.  The two drugs of a pair are never equal: not in a pair that the CSV loop has
  accepted into the side-effect dict, hence not in a pair that \<open>read_ddi_instances\<close>
  returns, and not in a pair that the sampler returns.
\<close>

theorem pairs_distinct_drugs:
  "(read_rows 0 rows [] = Inr side_effects \<longrightarrow>
      (\<forall>sid ddis d1 d2. (sid, ddis) \<in> set side_effects \<and> (d1, d2) \<in> set ddis \<longrightarrow> d1 \<noteq> d2)) \<and>
   (read_ddi_instances rows threshold use_small_dataset = Inr (kept, idx) \<longrightarrow>
      (\<forall>sid ddis d1 d2. (sid, ddis) \<in> set kept \<and> (d1, d2) \<in> set ddis \<longrightarrow> d1 \<noteq> d2)) \<and>
   (create_negative_instances drug_idx_list positive_set size' draws = Some (Inr negs) \<longrightarrow>
      (\<forall>d1 d2. (d1, d2) \<in> set negs \<longrightarrow> d1 \<noteq> d2))"
proof (intro conjI impI)
  assume "read_rows 0 rows [] = Inr side_effects"
  from read_rows_top_pairs_ok[OF this]
  show "\<forall>sid ddis d1 d2. (sid, ddis) \<in> set side_effects \<and> (d1, d2) \<in> set ddis \<longrightarrow> d1 \<noteq> d2"
    unfolding pairs_ok_def by fastforce
next
  assume "read_ddi_instances rows threshold use_small_dataset = Inr (kept, idx)"
  from read_ddi_instances_subset[OF this] obtain se where
    r: "read_rows 0 rows [] = Inr se" and sub: "set kept \<subseteq> set se" by blast
  from read_rows_top_pairs_ok[OF r] sub
  show "\<forall>sid ddis d1 d2. (sid, ddis) \<in> set kept \<and> (d1, d2) \<in> set ddis \<longrightarrow> d1 \<noteq> d2"
    unfolding pairs_ok_def by fastforce
next
  assume "create_negative_instances drug_idx_list positive_set size' draws = Some (Inr negs)"
  from create_negative_instances_inv[OF this]
  show "\<forall>d1 d2. (d1, d2) \<in> set negs \<longrightarrow> d1 \<noteq> d2"
    unfolding neg_inv_def by auto
qed

lemma read_rows_example:
  "read_rows 0 [[''d1'', ''d2'', ''se''], [''a'', ''b'', ''C1''], [''b'', ''c'', ''C2''],
       [''a'', ''c'', ''C1'']] []
     = Inr [(''C1'', [(''a'', ''b''), (''a'', ''c'')]), (''C2'', [(''b'', ''c'')])]"
  by simp

lemma read_ddi_instances_example:
  "read_ddi_instances [[''d1'', ''d2'', ''se''], [''a'', ''b'', ''C1''], [''b'', ''c'', ''C2''],
       [''a'', ''c'', ''C1'']] 2 False
     = Inr ([(''C1'', [(''a'', ''b''), (''a'', ''c'')])], [(''C1'', 0)])"
  by (simp add: read_ddi_instances_def read_rows_example filter_threshold_def
      side_effect_idx_def)

theorem pairs_distinct_drugs_witness:
  "read_rows 0 [[''d1'', ''d2'', ''se''], [''a'', ''b'', ''C1''], [''b'', ''c'', ''C2''],
       [''a'', ''c'', ''C1'']] []
     = Inr [(''C1'', [(''a'', ''b''), (''a'', ''c'')]), (''C2'', [(''b'', ''c'')])] \<and>
   read_ddi_instances [[''d1'', ''d2'', ''se''], [''a'', ''b'', ''C1''], [''b'', ''c'', ''C2''],
       [''a'', ''c'', ''C1'']] 2 False
     = Inr ([(''C1'', [(''a'', ''b''), (''a'', ''c'')])], [(''C1'', 0)]) \<and>
   create_negative_instances [''a'', ''b'', ''c''] {(''a'', ''b'')} (Some 2)
     [(0, 0), (1, 0), (0, 1), (2, 1)] = Some (Inr [(''c'', ''b''), (''a'', ''c'')]) \<and>
   ''b'' \<noteq> ''c'' \<and> ''a'' \<noteq> ''c'' \<and> ''c'' \<noteq> ''b''"
proof -
  note t = pairs_distinct_drugs[of
      "[[''d1'', ''d2'', ''se''], [''a'', ''b'', ''C1''], [''b'', ''c'', ''C2''],
        [''a'', ''c'', ''C1'']]"
      "[(''C1'', [(''a'', ''b''), (''a'', ''c'')]), (''C2'', [(''b'', ''c'')])]"
      2 False "[(''C1'', [(''a'', ''b''), (''a'', ''c'')])]" "[(''C1'', 0)]"
      "[''a'', ''b'', ''c'']" "{(''a'', ''b'')}" "Some 2" "[(0, 0), (1, 0), (0, 1), (2, 1)]"
      "[(''c'', ''b''), (''a'', ''c'')]"]
  from t read_rows_example
  have "(''C2'', [(''b'', ''c'')]) \<in> set [(''C1'', [(''a'', ''b''), (''a'', ''c'')]), (''C2'', [(''b'', ''c'')])]
      \<and> (''b'', ''c'') \<in> set [(''b'', ''c'')] \<longrightarrow> ''b'' \<noteq> ''c''"
    by blast
  then have 1: "''b'' \<noteq> ''c''" by simp
  from t read_ddi_instances_example
  have "(''C1'', [(''a'', ''b''), (''a'', ''c'')]) \<in> set [(''C1'', [(''a'', ''b''), (''a'', ''c'')])]
      \<and> (''a'', ''c'') \<in> set [(''a'', ''b''), (''a'', ''c'')] \<longrightarrow> ''a'' \<noteq> ''c''"
    by blast
  then have 2: "''a'' \<noteq> ''c''" by simp
  from t sample_run_example
  have "(''c'', ''b'') \<in> set [(''c'', ''b''), (''a'', ''c'')] \<longrightarrow> ''c'' \<noteq> ''b''"
    by blast
  then have 3: "''c'' \<noteq> ''b''" by simp
  from 1 2 3 read_rows_example read_ddi_instances_example sample_run_example
  show ?thesis by blast
qed

lemma unordered_eq_iff:
  "unordered p = unordered q \<longleftrightarrow> p = q \<or> p = (snd q, fst q)"
  by (cases p; cases q) (auto simp: unordered_def doubleton_eq_iff)








lemma all_pairs_mem:
  "(a, b) \<in> set (all_pairs xs) \<Longrightarrow> a \<in> set xs \<and> b \<in> set xs"
  by (induction xs) auto

lemma all_pairs_ne:
  "distinct xs \<Longrightarrow> (a, b) \<in> set (all_pairs xs) \<Longrightarrow> a \<noteq> b"
  by (induction xs) (auto dest: all_pairs_mem)

lemma all_pairs_complete:
  "a \<in> set xs \<Longrightarrow> b \<in> set xs \<Longrightarrow> a \<noteq> b \<Longrightarrow>
   (a, b) \<in> set (all_pairs xs) \<or> (b, a) \<in> set (all_pairs xs)"
  by (induction xs) auto

lemma distinct_unordered_all_pairs:
  "distinct xs \<Longrightarrow> distinct (map unordered (all_pairs xs))"
proof (induction xs)
  case Nil
  then show ?case by simp
next
  case (Cons x xs)
  then have nx: "x \<notin> set xs" and d: "distinct xs" by simp_all
  have 1: "distinct (map unordered (map (Pair x) xs))"
    using d by (simp add: distinct_map inj_on_def unordered_def doubleton_eq_iff comp_def)
  have 2: "unordered (x, y) \<noteq> unordered q" if "q \<in> set (all_pairs xs)" for y q
  proof -
    obtain a b where q: "q = (a, b)" by (cases q)
    with that all_pairs_mem[of a b xs] have "a \<in> set xs" "b \<in> set xs" by simp_all
    with nx show ?thesis by (auto simp: q unordered_def doubleton_eq_iff)
  qed
  show ?case
    using 1 2 Cons.IH[OF d] by auto
qed






lemma strip_nul_id: "s = [] \<or> last s \<noteq> CHR 0x00 \<Longrightarrow> strip_nul s = s"
proof (cases s rule: rev_cases)
  case Nil
  then show ?thesis by (simp add: strip_nul_def)
next
  case (snoc ys y)
  assume "s = [] \<or> last s \<noteq> CHR 0x00"
  with snoc show ?thesis by (simp add: strip_nul_def)
qed

lemma np_array_id:
  "\<forall>d \<in> set xs. d = [] \<or> last d \<noteq> CHR 0x00 \<Longrightarrow> np_array xs = xs"
  unfolding np_array_def by (induction xs) (simp_all add: strip_nul_id)





lemma free_pairs_count:
  assumes "distinct xs"
  shows "length (free_pairs xs P) =
           card {{a, b} | a b. a \<in> set xs \<and> b \<in> set xs \<and> a \<noteq> b \<and> (a, b) \<notin> P \<and> (b, a) \<notin> P}"
proof -
  let ?fp = "free_pairs xs P"
  have "distinct (map unordered ?fp)"
    unfolding free_pairs_def
    by (rule distinct_map_filter[OF distinct_unordered_all_pairs[OF assms]])
  then have "card (unordered ` set ?fp) = length ?fp"
    using distinct_card[of "map unordered ?fp"] by simp
  moreover have "unordered ` set ?fp =
      {{a, b} | a b. a \<in> set xs \<and> b \<in> set xs \<and> a \<noteq> b \<and> (a, b) \<notin> P \<and> (b, a) \<notin> P}"
    (is "?L = ?R")
  proof
    show "?L \<subseteq> ?R"
    proof
      fix x assume "x \<in> ?L"
      then obtain a b where ab: "(a, b) \<in> set ?fp" and x: "x = {a, b}"
        by (auto simp: unordered_def)
      from ab have "(a, b) \<in> set (all_pairs xs)" "(a, b) \<notin> P" "(b, a) \<notin> P"
        by (auto simp: free_pairs_def)
      with all_pairs_mem[of a b xs] all_pairs_ne[OF assms, of a b] x show "x \<in> ?R" by blast
    qed
    show "?R \<subseteq> ?L"
    proof
      fix x assume "x \<in> ?R"
      then obtain a b where x: "x = {a, b}" and c: "a \<in> set xs" "b \<in> set xs" "a \<noteq> b"
          "(a, b) \<notin> P" "(b, a) \<notin> P"
        by blast
      from all_pairs_complete[OF c(1-3)] c(4,5)
      have "(a, b) \<in> set ?fp \<or> (b, a) \<in> set ?fp" by (auto simp: free_pairs_def)
      then show "x \<in> ?L"
      proof
        assume "(a, b) \<in> set ?fp"
        then have "unordered (a, b) \<in> ?L" by (rule imageI)
        then show ?thesis by (simp add: x unordered_def)
      next
        assume "(b, a) \<in> set ?fp"
        then have "unordered (b, a) \<in> ?L" by (rule imageI)
        then show ?thesis by (simp add: x unordered_def insert_commute)
      qed
    qed
  qed
  ultimately show ?thesis by simp
qed

lemma sample_loop_length:
  "sample_loop ds P sz neg draws = Some (Inr res) \<Longrightarrow> sz \<le> length res"
proof (induction draws arbitrary: neg)
  case Nil
  then show ?case by (simp split: if_splits)
next
  case (Cons r draws)
  then show ?case
    by (auto split: if_splits sum.splits prod.splits)
qed

lemma negative_sampling_needs_pairs:
  assumes "negative_instances_for drug_idx_list pos_se_ddp draws = Some (Inr negs)"
  shows "length pos_se_ddp \<le> length (free_pairs (np_array drug_idx_list) (set pos_se_ddp))"
proof -
  let ?P = "set pos_se_ddp"
  let ?fp = "free_pairs (np_array drug_idx_list) ?P"
  from assms have c: "create_negative_instances drug_idx_list ?P (Some (length pos_se_ddp)) draws
      = Some (Inr negs)"
    by (simp add: negative_instances_for_def)
  have len: "length pos_se_ddp \<le> length negs"
  proof (cases "pos_se_ddp = []")
    case True
    then show ?thesis by simp
  next
    case False
    with c have "sample_loop drug_idx_list ?P (length pos_se_ddp) [] draws = Some (Inr negs)"
      by (simp add: create_negative_instances_def)
    then show ?thesis by (rule sample_loop_length)
  qed
  from create_negative_instances_inv[OF c]
  have d: "distinct negs" and
    inv: "\<And>a b. (a, b) \<in> set negs \<Longrightarrow> a \<noteq> b \<and> a \<in> set (np_array drug_idx_list) \<and>
        b \<in> set (np_array drug_idx_list) \<and> (b, a) \<notin> set negs \<and>
        (a, b) \<notin> ?P \<and> (b, a) \<notin> ?P"
    unfolding neg_inv_def by auto
  have "inj_on unordered (set negs)"
  proof (rule inj_onI)
    fix p q assume p: "p \<in> set negs" and q: "q \<in> set negs" and e: "unordered p = unordered q"
    from e have "p = q \<or> p = (snd q, fst q)" by (simp add: unordered_eq_iff)
    moreover from inv[of "fst q" "snd q"] q have "(snd q, fst q) \<notin> set negs" by simp
    ultimately show "p = q" using p by auto
  qed
  with d have "card (unordered ` set negs) = length negs"
    by (simp add: card_image distinct_card)
  moreover have "unordered ` set negs \<subseteq> unordered ` set ?fp"
  proof
    fix x assume "x \<in> unordered ` set negs"
    then obtain a b where ab: "(a, b) \<in> set negs" and x: "x = unordered (a, b)" by auto
    from inv[OF ab] all_pairs_complete[of a "np_array drug_idx_list" b]
    have "(a, b) \<in> set ?fp \<or> (b, a) \<in> set ?fp" by (auto simp: free_pairs_def)
    then show "x \<in> unordered ` set ?fp"
    proof
      assume "(a, b) \<in> set ?fp"
      then show ?thesis unfolding x by (rule imageI)
    next
      assume "(b, a) \<in> set ?fp"
      then have "unordered (b, a) \<in> unordered ` set ?fp" by (rule imageI)
      then show ?thesis by (simp add: x unordered_def insert_commute)
    qed
  qed
  then have "card (unordered ` set negs) \<le> card (unordered ` set ?fp)"
    by (intro card_mono) simp_all
  moreover have "card (unordered ` set ?fp) \<le> length ?fp"
    using card_length[of "map unordered ?fp"] by simp
  ultimately show ?thesis using len by simp
qed

lemma repeated_draw_never_ends:
  "negative_instances_for [''a'', ''b'', ''c''] [(''a'', ''b'')] (replicate k (0, 0)) = None"
proof -
  have "sample_loop [''a'', ''b'', ''c''] {(''a'', ''b'')} 1 [] (replicate k (0, 0)) = None"
    by (induction k)
      (simp_all add: random_choice2_def pick2_def choice_positions_def np_array_def
        strip_nul_def)
  then show ?thesis
    by (simp add: negative_instances_for_def create_negative_instances_def)
qed

lemma fold_file_name_TypeError: "fold_file_name path n_fold = Inl TypeError"
  by (cases path) (simp_all add: fold_file_name_def)

lemma write_fold_TypeError:
  "write_fold path n_fold pos_cv neg_cv fold_i files = Inl TypeError"
  by (simp add: write_fold_def fold_file_name_TypeError)

lemma write_folds_result:
  "write_folds path n_fold pos_cv neg_cv folds files =
     (if folds = [] then Inr files else Inl TypeError)"
  by (cases folds) (simp_all add: write_fold_TypeError)

lemma split_decagon_cv_no_write:
  "split_decagon_cv opt files = Inr files' \<Longrightarrow> files' = files"
  by (auto simp: split_decagon_cv_def write_folds_result split: sum.splits if_splits)

lemma split_decagon_cv_TypeError:
  assumes "1 \<le> opt_n_fold opt"
  shows "split_decagon_cv opt files = Inl TypeError"
proof -
  from assms have n: "opt_n_fold opt \<noteq> 0" by simp
  from split_all_ok[OF n, of "opt_pos_datasets opt"] obtain pos_cv where
    p: "split_all_cross_validation_datasets (opt_pos_datasets opt) (opt_n_fold opt) = Inr pos_cv"
    by blast
  from split_all_ok[OF n, of "opt_neg_datasets opt"] obtain neg_cv where
    q: "split_all_cross_validation_datasets (opt_neg_datasets opt) (opt_n_fold opt) = Inr neg_cv"
    by blast
  from assms have "[1 .. opt_n_fold opt] \<noteq> []" by (simp add: upto.simps)
  then show ?thesis
    by (simp add: split_decagon_cv_def p q write_folds_result)
qed

text \<open>
  Claim C8 fails on the code.  With \<open>opt.path = ['./data/']\<close> and \<open>opt.n_fold = 10\<close>,
  \<open>split_decagon_cv\<close> raises TypeError while it builds the file name for the first fold,
  and no file is written.
\<close>

theorem split_decagon_cv_raises:
  "split_decagon_cv
     \<lparr>opt_path = ListVal [''./data/''], opt_n_fold = 10,
      opt_pos_datasets = [(''C1'', [(''a'', ''b''), (''a'', ''c'')])],
      opt_neg_datasets = [(''C1'', [(''b'', ''c''), (''c'', ''d'')])]\<rparr>
     Map.empty
   = Inl TypeError"
  by (rule split_decagon_cv_TypeError) simp

lemma qm9_loop_first: "qm9_loop (i # rest) rnd [] = Inl TypeError"
  by (simp add: py_randint_def)

text \<open>
  Claim C10.  \<open>split_qm9_cv\<close> never completes normally: whatever the graph dict and the
  random source, the first iteration calls \<open>random.randint\<close> with one argument and the
  TypeError ends the function.
\<close>

theorem split_qm9_cv_raises: "split_qm9_cv graph_dict rnd = Inl TypeError"
proof -
  have "[0 .. 9999] = (0::int) # [0 + 1 .. 9999]"
    by (rule upto_rec1) simp
  then have "qm9_loop [0 .. 9999] rnd [] = qm9_loop (0 # [0 + 1 .. 9999]) rnd []"
    by (rule arg_cong)
  also have "\<dots> = Inl TypeError"
    by (rule qm9_loop_first)
  finally show ?thesis
    unfolding split_qm9_cv_def Let_def by (simp only: sum.case)
qed

end
